theory Spec2Isabelle
  imports Main "HOL-Library.Word"
begin

section \<open>Storage and the initializer policies\<close>

text \<open>
  \<^verbatim>\<open>storage<T>\<close> is a union of a dummy \<^verbatim>\<open>char\<close> and a \<^verbatim>\<open>T\<close>: raw memory in which a
  \<^verbatim>\<open>T\<close> may or may not live. Its constructor activates the dummy, its destructor does
  nothing. What the C++ object model knows about that memory is kept here as ghost state:
  which object lives in \<^verbatim>\<open>_obj\<close> (objects are named by the serial number of the
  construction that made them), how often a constructor ran on \<^verbatim>\<open>memory()\<close> and how
  often \<^verbatim>\<open>~T()\<close> ran on \<^verbatim>\<open>get()\<close>.
\<close>

type_synonym obj_id = nat

record storage =
  obj :: "obj_id option"
  constructions :: nat
  destructions :: nat

definition storage_new :: storage where
  "storage_new = \<lparr>obj = None, constructions = 0, destructions = 0\<rparr>"

text \<open>
  \<^verbatim>\<open>Initializer::init<T>(memory)\<close>: all four policies (\<^verbatim>\<open>init_default\<close>,
  \<^verbatim>\<open>init_from\<close>, \<^verbatim>\<open>init_braced\<close>, \<^verbatim>\<open>init_fn\<close>) are one placement new on the memory,
  whatever lived there before; they differ in the arguments of \<^verbatim>\<open>T\<close>'s constructor only.
  No destructor runs for a previous occupant. The constructor is taken to return.
\<close>

definition init :: "storage \<Rightarrow> storage" where
  "init s = s\<lparr>obj := Some (constructions s), constructions := Suc (constructions s)\<rparr>"

text \<open>\<^verbatim>\<open>_storage.get().~T()\<close>: the explicit destructor call of the wrappers.\<close>

definition destruct :: "storage \<Rightarrow> storage" where
  "destruct s = s\<lparr>obj := None, destructions := Suc (destructions s)\<rparr>"

text \<open>
  \<^verbatim>\<open>storage::get()\<close> returns a reference to \<^verbatim>\<open>_obj\<close>; the model returns what that
  reference denotes, the object living there (\<open>None\<close>: no object lives there).
\<close>

definition storage_get :: "storage \<Rightarrow> obj_id option" where
  "storage_get s = obj s"

text \<open>
  How a call can end other than by returning: \<^verbatim>\<open>ATUM_LIFETIME_ASSERT\<close> failing in a
  build with \<^verbatim>\<open>ATUM_CHECK_LIFETIME\<close>. In every function below the first argument
  \<open>checked\<close> is that build switch.
\<close>

datatype failure = AssertionFailed

datatype call = Initialize | Destroy | Get

section \<open>manual_init\<close>

text \<open>
  The member \<^verbatim>\<open>_initialized\<close> exists in checked builds only; in an unchecked build the
  model never reads or writes the field.
\<close>

record manual_init =
  m_storage :: storage
  m_initialized :: bool

definition manual_init_new :: manual_init where
  "manual_init_new = \<lparr>m_storage = storage_new, m_initialized = False\<rparr>"

definition manual_initialize :: "bool \<Rightarrow> manual_init \<Rightarrow> manual_init" where
  "manual_initialize checked m =
     (let m1 = m\<lparr>m_storage := init (m_storage m)\<rparr>
      in if checked then m1\<lparr>m_initialized := True\<rparr> else m1)"

definition manual_destroy :: "bool \<Rightarrow> manual_init \<Rightarrow> manual_init" where
  "manual_destroy checked m =
     (let m1 = m\<lparr>m_storage := destruct (m_storage m)\<rparr>
      in if checked then m1\<lparr>m_initialized := False\<rparr> else m1)"

definition manual_get :: "bool \<Rightarrow> manual_init \<Rightarrow> failure + obj_id option" where
  "manual_get checked m =
     (if checked \<and> \<not> m_initialized m then Inl AssertionFailed
      else Inr (storage_get (m_storage m)))"

text \<open>
  A sequence of calls on one instance. The result is the list of the references the
  \<^verbatim>\<open>get()\<close> calls returned and the instance afterwards, or the failure that stopped the
  program.
\<close>

fun manual_run :: "bool \<Rightarrow> call list \<Rightarrow> manual_init \<Rightarrow> failure + (obj_id option list \<times> manual_init)" where
  "manual_run checked [] m = Inr ([], m)"
| "manual_run checked (Initialize # cs) m = manual_run checked cs (manual_initialize checked m)"
| "manual_run checked (Destroy # cs) m = manual_run checked cs (manual_destroy checked m)"
| "manual_run checked (Get # cs) m =
     (case manual_get checked m of
        Inl e \<Rightarrow> Inl e
      | Inr r \<Rightarrow>
          (case manual_run checked cs m of
             Inl e \<Rightarrow> Inl e
           | Inr (rs, m') \<Rightarrow> Inr (r # rs, m')))"

section \<open>lazy_init\<close>

text \<open>
  \<^verbatim>\<open>lazy_init<Tag, T, Initializer>::initialize()\<close> declares a function-local static
  named \<^verbatim>\<open>initializer\<close>. There is one such variable per instantiation of the template,
  shared by every instance of that type; the language initializes it the first time
  control passes its declaration and skips the declaration afterwards. Its initializer
  expression runs \<^verbatim>\<open>Initializer::init\<close> on the storage of the instance the call was
  made on. The variable is a \<^verbatim>\<open>void*\<close> holding \<^verbatim>\<open>this\<close> in a checked build and a
  \<^verbatim>\<open>bool\<close> holding \<^verbatim>\<open>true\<close> otherwise.

  The state of one instantiation is therefore the static (\<open>None\<close> until its declaration
  has been passed) and the storage of the instance at each address. Calls are sequential
  here: what the language does when several threads reach the declaration at once is not
  part of this model.
\<close>

type_synonym addr = nat

datatype static_val = Ptr addr | Flag bool

record lazy_world =
  static_initializer :: "static_val option"
  cells :: "addr \<Rightarrow> storage"

definition lazy_world_new :: lazy_world where
  "lazy_world_new = \<lparr>static_initializer = None, cells = (\<lambda>_. storage_new)\<rparr>"

definition lazy_initialize :: "bool \<Rightarrow> addr \<Rightarrow> lazy_world \<Rightarrow> failure + lazy_world" where
  "lazy_initialize checked this w =
     (let w1 = (case static_initializer w of
                  None \<Rightarrow>
                    w\<lparr>cells := (cells w)(this := init (cells w this)),
                      static_initializer := Some (if checked then Ptr this else Flag True)\<rparr>
                | Some _ \<Rightarrow> w)
      in if checked \<and> static_initializer w1 \<noteq> Some (Ptr this) then Inl AssertionFailed
         else Inr w1)"

definition lazy_destroy :: "addr \<Rightarrow> lazy_world \<Rightarrow> lazy_world" where
  "lazy_destroy this w = w"

text \<open>
  \<^verbatim>\<open>get()\<close> returns a reference into the storage of the instance it was called on: the
  address of the instance, paired with the object living there.
\<close>

definition lazy_get :: "bool \<Rightarrow> addr \<Rightarrow> lazy_world \<Rightarrow> failure + ((addr \<times> obj_id option) \<times> lazy_world)" where
  "lazy_get checked this w =
     (case lazy_initialize checked this w of
        Inl e \<Rightarrow> Inl e
      | Inr w1 \<Rightarrow> Inr ((this, storage_get (cells w1 this)), w1))"

text \<open>A sequence of calls, each on the instance at the given address.\<close>

fun lazy_run :: "bool \<Rightarrow> (addr \<times> call) list \<Rightarrow> lazy_world \<Rightarrow> failure + ((addr \<times> obj_id option) list \<times> lazy_world)" where
  "lazy_run checked [] w = Inr ([], w)"
| "lazy_run checked ((this, Initialize) # cs) w =
     (case lazy_initialize checked this w of
        Inl e \<Rightarrow> Inl e
      | Inr w1 \<Rightarrow> lazy_run checked cs w1)"
| "lazy_run checked ((this, Destroy) # cs) w = lazy_run checked cs (lazy_destroy this w)"
| "lazy_run checked ((this, Get) # cs) w =
     (case lazy_get checked this w of
        Inl e \<Rightarrow> Inl e
      | Inr (r, w1) \<Rightarrow>
          (case lazy_run checked cs w1 of
             Inl e \<Rightarrow> Inl e
           | Inr (rs, w2) \<Rightarrow> Inr (r # rs, w2)))"

text \<open>
  The state in which the instance at \<open>this\<close>, and no other, has been constructed once:
  the static is set, the storage at \<open>this\<close> holds object 0 after one construction and no
  destruction, every other storage is untouched.
\<close>

definition lazy_done :: "bool \<Rightarrow> addr \<Rightarrow> lazy_world" where
  "lazy_done checked this =
     \<lparr>static_initializer = Some (if checked then Ptr this else Flag True),
      cells = (\<lambda>_. storage_new)(this := \<lparr>obj = Some 0, constructions = 1, destructions = 0\<rparr>)\<rparr>"

section \<open>nifty_init\<close>

text \<open>
  \<^verbatim>\<open>_count\<close> is a \<^verbatim>\<open>std::atomic<int>\<close>: a 32-bit two's complement value whose
  increments and decrements wrap around. \<^verbatim>\<open>_count++\<close> yields the value before the
  increment, \<^verbatim>\<open>--_count\<close> the value after the decrement.
\<close>

record nifty_init =
  n_storage :: storage
  n_count :: "32 word"

definition nifty_init_new :: nifty_init where
  "nifty_init_new = \<lparr>n_storage = storage_new, n_count = 0\<rparr>"

definition nifty_reference :: "nifty_init \<Rightarrow> obj_id option" where
  "nifty_reference n = storage_get (n_storage n)"

definition nifty_initialize :: "nifty_init \<Rightarrow> nifty_init" where
  "nifty_initialize n =
     (let old = n_count n; n1 = n\<lparr>n_count := old + 1\<rparr>
      in if old = 0 then n1\<lparr>n_storage := init (n_storage n1)\<rparr> else n1)"

definition nifty_destroy :: "nifty_init \<Rightarrow> nifty_init" where
  "nifty_destroy n =
     (let new = n_count n - 1; n1 = n\<lparr>n_count := new\<rparr>
      in if new = 0 then n1\<lparr>n_storage := destruct (n_storage n1)\<rparr> else n1)"

definition nifty_get :: "bool \<Rightarrow> nifty_init \<Rightarrow> failure + obj_id option" where
  "nifty_get checked n =
     (if checked \<and> \<not> 0 < sint (n_count n) then Inl AssertionFailed
      else Inr (storage_get (n_storage n)))"

text \<open>A trace of \<^verbatim>\<open>initialize()\<close> and \<^verbatim>\<open>destroy()\<close> calls on one instance.\<close>

datatype nifty_call = NiftyInitialize | NiftyDestroy

fun nifty_calls :: "nifty_call list \<Rightarrow> nifty_init \<Rightarrow> nifty_init" where
  "nifty_calls [] n = n"
| "nifty_calls (NiftyInitialize # t) n = nifty_calls t (nifty_initialize n)"
| "nifty_calls (NiftyDestroy # t) n = nifty_calls t (nifty_destroy n)"

text \<open>
  The vocabulary of the refcount property, about traces alone. With \<open>d\<close> calls of
  \<^verbatim>\<open>initialize()\<close> not yet matched by a \<^verbatim>\<open>destroy()\<close>: \<open>matched d t\<close> says that every
  \<^verbatim>\<open>destroy()\<close> of \<open>t\<close> has an unmatched \<^verbatim>\<open>initialize()\<close> before it; \<open>unmatched d t\<close>
  is the number of unmatched \<^verbatim>\<open>initialize()\<close> calls after \<open>t\<close>; \<open>claims_at_zero d t\<close>
  counts the \<^verbatim>\<open>initialize()\<close> calls of \<open>t\<close> made when none is unmatched, and
  \<open>releases_to_zero d t\<close> the \<^verbatim>\<open>destroy()\<close> calls that match the last unmatched one.
\<close>

fun matched :: "nat \<Rightarrow> nifty_call list \<Rightarrow> bool" where
  "matched d [] = True"
| "matched d (NiftyInitialize # t) = matched (Suc d) t"
| "matched d (NiftyDestroy # t) = (0 < d \<and> matched (d - 1) t)"

fun unmatched :: "nat \<Rightarrow> nifty_call list \<Rightarrow> nat" where
  "unmatched d [] = d"
| "unmatched d (NiftyInitialize # t) = unmatched (Suc d) t"
| "unmatched d (NiftyDestroy # t) = unmatched (d - 1) t"

fun claims_at_zero :: "nat \<Rightarrow> nifty_call list \<Rightarrow> nat" where
  "claims_at_zero d [] = 0"
| "claims_at_zero d (NiftyInitialize # t) = (if d = 0 then 1 else 0) + claims_at_zero (Suc d) t"
| "claims_at_zero d (NiftyDestroy # t) = claims_at_zero (d - 1) t"

fun releases_to_zero :: "nat \<Rightarrow> nifty_call list \<Rightarrow> nat" where
  "releases_to_zero d [] = 0"
| "releases_to_zero d (NiftyInitialize # t) = releases_to_zero (Suc d) t"
| "releases_to_zero d (NiftyDestroy # t) = (if d = 1 then 1 else 0) + releases_to_zero (d - 1) t"

section \<open>scoped_initializer\<close>

text \<open>
  \<^verbatim>\<open>scoped_initializer<Inits...>\<close> refers to any objects that have \<^verbatim>\<open>initialize()\<close> and
  \<^verbatim>\<open>destroy()\<close>. An entity is such an object: a name, and what its two member functions
  do to the rest of the program state \<open>'w\<close>. A call ends by returning or by raising an
  exception; \<open>Terminated\<close> is \<^verbatim>\<open>std::terminate\<close>, which the language calls when an
  exception leaves a \<^verbatim>\<open>noexcept\<close> function.

  The calls the group makes are recorded, in order, in a log that is carried beside the
  program state.
\<close>

datatype outcome = Returned | Raised | Terminated

record 'w entity =
  ent_name :: nat
  ent_initialize :: "'w \<Rightarrow> outcome \<times> 'w"
  ent_destroy :: "'w \<Rightarrow> outcome \<times> 'w"

datatype event = InitializeCalled nat | DestroyCalled nat

text \<open>
  The constructor's fold \<^verbatim>\<open>(Inits.initialize(), ...)\<close> is
  \<^verbatim>\<open>(I1.initialize(), (I2.initialize(), ...))\<close>: the comma operator evaluates its left
  operand first. An exception ends the whole expression.
\<close>

fun initialize_fold :: "'w entity list \<Rightarrow> event list \<times> 'w \<Rightarrow> outcome \<times> (event list \<times> 'w)" where
  "initialize_fold [] s = (Returned, s)"
| "initialize_fold (e # es) (log, w) =
     (case ent_initialize e w of
        (Returned, w1) \<Rightarrow> initialize_fold es (log @ [InitializeCalled (ent_name e)], w1)
      | (r, w1) \<Rightarrow> (r, (log @ [InitializeCalled (ent_name e)], w1)))"

text \<open>
  The destructor's fold \<^verbatim>\<open>((Inits.destroy(), dummy) = ... = 0)\<close> is
  \<^verbatim>\<open>(I1.destroy(), dummy) = ((I2.destroy(), dummy) = (... = 0))\<close>: an assignment
  evaluates its right operand before its left one, so the calls of the entities to the
  right come first, and an exception among them ends the whole expression before the
  left operand is evaluated.
\<close>

fun destroy_fold :: "'w entity list \<Rightarrow> event list \<times> 'w \<Rightarrow> outcome \<times> (event list \<times> 'w)" where
  "destroy_fold [] s = (Returned, s)"
| "destroy_fold (e # es) s =
     (case destroy_fold es s of
        (Returned, (log, w)) \<Rightarrow>
          (case ent_destroy e w of (r, w1) \<Rightarrow> (r, (log @ [DestroyCalled (ent_name e)], w1)))
      | (r, s1) \<Rightarrow> (r, s1))"

definition scoped_initializer_ctor :: "'w entity list \<Rightarrow> event list \<times> 'w \<Rightarrow> outcome \<times> (event list \<times> 'w)" where
  "scoped_initializer_ctor ents s = initialize_fold ents s"

text \<open>The destructor is \<^verbatim>\<open>noexcept\<close>: an exception that would leave it terminates.\<close>

definition scoped_initializer_dtor :: "'w entity list \<Rightarrow> event list \<times> 'w \<Rightarrow> outcome \<times> (event list \<times> 'w)" where
  "scoped_initializer_dtor ents s =
     (case destroy_fold ents s of
        (Raised, s1) \<Rightarrow> (Terminated, s1)
      | (r, s1) \<Rightarrow> (r, s1))"

text \<open>
  A block that declares a \<^verbatim>\<open>scoped_initializer\<close> and then runs \<open>body\<close>. If the
  constructor raises, the object never existed and the block is left at once. Otherwise
  the destructor runs when the block is left, whether \<open>body\<close> returned or raised (an
  exception that is caught further out); the block ends the way \<open>body\<close> did unless the
  destructor terminates.
\<close>

definition scope :: "'w entity list \<Rightarrow> ('w \<Rightarrow> outcome \<times> 'w) \<Rightarrow> event list \<times> 'w \<Rightarrow> outcome \<times> (event list \<times> 'w)" where
  "scope ents body s =
     (case scoped_initializer_ctor ents s of
        (Returned, (log, w)) \<Rightarrow>
          (case body w of
             (Terminated, w1) \<Rightarrow> (Terminated, (log, w1))
           | (r, w1) \<Rightarrow>
               (case scoped_initializer_dtor ents (log, w1) of
                  (Returned, s2) \<Rightarrow> (r, s2)
                | (x, s2) \<Rightarrow> (x, s2)))
      | (r, s1) \<Rightarrow> (r, s1))"

definition returns :: "('w \<Rightarrow> outcome \<times> 'w) \<Rightarrow> bool" where
  "returns f = (\<forall>w. fst (f w) = Returned)"



text \<open>
  An entity whose calls leave a trace in the program state itself: \<^verbatim>\<open>initialize()\<close>
  and \<^verbatim>\<open>destroy()\<close> each append their own entry to a list that is the state.
\<close>

definition recording_entity :: "nat \<Rightarrow> event list entity" where
  "recording_entity k =
     \<lparr>ent_name = k,
      ent_initialize = (\<lambda>w. (Returned, w @ [InitializeCalled k])),
      ent_destroy = (\<lambda>w. (Returned, w @ [DestroyCalled k]))\<rparr>"

section \<open>Properties of manual_init\<close>

lemma manual_run_append:
  "manual_run c (xs @ ys) m =
     (case manual_run c xs m of
        Inl e \<Rightarrow> Inl e
      | Inr (rs, m') \<Rightarrow>
          (case manual_run c ys m' of
             Inl e \<Rightarrow> Inl e
           | Inr (rs', m'') \<Rightarrow> Inr (rs @ rs', m'')))"
proof (induction xs arbitrary: m)
  case Nil
  show ?case by (simp split: sum.splits)
next
  case (Cons x xs)
  show ?case by (cases x) (simp_all add: Cons.IH split: sum.splits prod.splits)
qed

lemma manual_run_gets:
  "manual_get c m = Inr r \<Longrightarrow> manual_run c (replicate n Get) m = Inr (replicate n r, m)"
  by (induction n) simp_all

lemma manual_get_initialize:
  "manual_get c (manual_initialize c m) = Inr (Some (constructions (m_storage m)))"
  by (simp add: manual_get_def manual_initialize_def init_def storage_get_def Let_def)

text \<open>
  C6. In a checked build \<^verbatim>\<open>manual_init::get()\<close> returns the reference to the storage
  when the instance is marked initialized and fails its assertion otherwise. So it fails
  on a fresh instance and on any instance right after \<^verbatim>\<open>destroy()\<close>. After
  \<^verbatim>\<open>initialize()\<close>, any number \<open>n\<close> of \<^verbatim>\<open>get()\<close> calls all return the reference to
  the one object that this \<^verbatim>\<open>initialize()\<close> constructed, which is alive; the
  \<^verbatim>\<open>destroy()\<close> that follows runs the destructor exactly once, and a \<^verbatim>\<open>get()\<close>
  after it fails the assertion again.
\<close>

theorem manual_get_checked_lifetime:
  "manual_get True m
     = (if m_initialized m then Inr (storage_get (m_storage m)) else Inl AssertionFailed)
   \<and> manual_get True manual_init_new = Inl AssertionFailed
   \<and> manual_get True (manual_destroy True m) = Inl AssertionFailed
   \<and> manual_run True (Initialize # replicate n Get) m
       = Inr (replicate n (Some (constructions (m_storage m))), manual_initialize True m)
   \<and> obj (m_storage (manual_initialize True m)) = Some (constructions (m_storage m))
   \<and> manual_run True (Initialize # replicate n Get @ [Destroy]) m
       = Inr (replicate n (Some (constructions (m_storage m))),
              manual_destroy True (manual_initialize True m))
   \<and> destructions (m_storage (manual_destroy True (manual_initialize True m)))
       = Suc (destructions (m_storage m))
   \<and> obj (m_storage (manual_destroy True (manual_initialize True m))) = None
   \<and> manual_run True (Initialize # replicate n Get @ [Destroy, Get]) m = Inl AssertionFailed"
proof -
  have asserts: "manual_get True m
     = (if m_initialized m then Inr (storage_get (m_storage m)) else Inl AssertionFailed)"
    by (simp add: manual_get_def)
  have fresh: "manual_get True manual_init_new = Inl AssertionFailed"
    by (simp add: manual_get_def manual_init_new_def)
  have dead: "manual_get True (manual_destroy True m') = Inl AssertionFailed" for m'
    by (simp add: manual_get_def manual_destroy_def Let_def)
  have gets: "manual_run True (replicate n Get) (manual_initialize True m)
      = Inr (replicate n (Some (constructions (m_storage m))), manual_initialize True m)"
    by (rule manual_run_gets) (rule manual_get_initialize)
  have live: "obj (m_storage (manual_initialize True m)) = Some (constructions (m_storage m))"
    by (simp add: manual_initialize_def init_def Let_def)
  have once: "destructions (m_storage (manual_destroy True (manual_initialize True m)))
      = Suc (destructions (m_storage m))"
    by (simp add: manual_initialize_def manual_destroy_def init_def destruct_def Let_def)
  have gone: "obj (m_storage (manual_destroy True (manual_initialize True m))) = None"
    by (simp add: manual_destroy_def destruct_def Let_def)
  have run1: "manual_run True (Initialize # replicate n Get @ [Destroy]) m
      = Inr (replicate n (Some (constructions (m_storage m))),
             manual_destroy True (manual_initialize True m))"
    using gets by (simp add: manual_run_append)
  have run2: "manual_run True (Initialize # replicate n Get @ [Destroy, Get]) m
      = Inl AssertionFailed"
    using gets dead by (simp add: manual_run_append)
  from asserts fresh dead gets live once gone run1 run2 show ?thesis by simp
qed

text \<open>
  C5, as the claim states it, fails: in a checked build a second \<^verbatim>\<open>initialize()\<close> on
  an initialized instance fails no assertion. The run below ends normally, with two
  constructions in the storage and the flag still set.
\<close>

theorem manual_initialize_twice_counterexample:
  "manual_run True [Initialize, Initialize] manual_init_new
     = Inr ([], \<lparr>m_storage = \<lparr>obj = Some 1, constructions = 2, destructions = 0\<rparr>,
                 m_initialized = True\<rparr>)"
  by (simp add: manual_initialize_def manual_init_new_def storage_new_def init_def Let_def)

text \<open>
  C5, amended. \<^verbatim>\<open>manual_init::initialize()\<close> checks nothing in either build. Called on
  any instance, initialized or not, it returns normally: it runs the initializer once
  more on the same storage, so that a new object replaces the old one without the old
  one's destructor running, and in a checked build it leaves the instance marked
  initialized, so that a following \<^verbatim>\<open>get()\<close> passes its assertion.
\<close>

theorem manual_initialize_unchecked_precondition:
  "manual_run checked [Initialize] m = Inr ([], manual_initialize checked m)
   \<and> constructions (m_storage (manual_initialize checked m)) = Suc (constructions (m_storage m))
   \<and> destructions (m_storage (manual_initialize checked m)) = destructions (m_storage m)
   \<and> obj (m_storage (manual_initialize checked m)) = Some (constructions (m_storage m))
   \<and> m_initialized (manual_initialize True m) = True
   \<and> manual_get checked (manual_initialize checked m) = Inr (Some (constructions (m_storage m)))"
  by (simp add: manual_initialize_def manual_get_def init_def storage_get_def Let_def)

section \<open>Properties of lazy_init\<close>

lemma lazy_initialize_new:
  "lazy_initialize c a lazy_world_new = Inr (lazy_done c a)"
  by (simp add: lazy_initialize_def lazy_world_new_def lazy_done_def init_def storage_new_def)

lemma lazy_initialize_done:
  "static_initializer w = Some (if c then Ptr a else Flag True) \<Longrightarrow> lazy_initialize c a w = Inr w"
  by (simp add: lazy_initialize_def)

lemma lazy_get_done:
  "static_initializer w = Some (if c then Ptr a else Flag True) \<Longrightarrow>
     lazy_get c a w = Inr ((a, obj (cells w a)), w)"
  by (simp add: lazy_get_def lazy_initialize_done storage_get_def)

lemma lazy_run_done:
  "static_initializer w = Some (if c then Ptr a else Flag True) \<Longrightarrow>
     lazy_run c (map (Pair a) cs) w
       = Inr (replicate (count_list cs Get) (a, obj (cells w a)), w)"
proof (induction cs)
  case Nil
  show ?case by simp
next
  case (Cons x cs)
  then show ?case
    by (cases x) (simp_all add: lazy_initialize_done lazy_get_done lazy_destroy_def)
qed

lemma lazy_run_first:
  assumes "cs \<noteq> []" and "Destroy \<notin> set cs"
  shows "lazy_run c (map (Pair a) cs) lazy_world_new
       = Inr (replicate (count_list cs Get) (a, Some 0), lazy_done c a)"
proof -
  obtain x xs where cs: "cs = x # xs" using assms(1) by (cases cs) auto
  have d: "static_initializer (lazy_done c a) = Some (if c then Ptr a else Flag True)"
    by (simp add: lazy_done_def)
  have o: "obj (cells (lazy_done c a) a) = Some 0"
    by (simp add: lazy_done_def)
  note rest = lazy_run_done [OF d, of xs, unfolded o]
  show ?thesis
  proof (cases x)
    case Initialize
    then show ?thesis using rest by (simp add: cs lazy_initialize_new)
  next
    case Destroy
    then show ?thesis using assms(2) cs by simp
  next
    case Get
    have "lazy_get c a lazy_world_new = Inr ((a, Some 0), lazy_done c a)"
      by (simp add: lazy_get_def lazy_initialize_new storage_get_def o)
    then show ?thesis using rest Get by (simp add: cs)
  qed
qed

lemma lazy_run_append:
  "lazy_run c (xs @ ys) w =
     (case lazy_run c xs w of
        Inl e \<Rightarrow> Inl e
      | Inr (rs, w1) \<Rightarrow>
          (case lazy_run c ys w1 of
             Inl e \<Rightarrow> Inl e
           | Inr (rs', w2) \<Rightarrow> Inr (rs @ rs', w2)))"
proof (induction xs arbitrary: w)
  case Nil
  show ?case by (simp split: sum.splits)
next
  case (Cons x xs)
  obtain a k where x: "x = (a, k)" by (cases x)
  show ?case unfolding x
    by (cases k) (simp_all add: Cons.IH split: sum.splits prod.splits)
qed

lemma lazy_initialize_other:
  "a \<noteq> b \<Longrightarrow> static_initializer w = Some (Ptr a) \<Longrightarrow> lazy_initialize True b w = Inl AssertionFailed"
  by (simp add: lazy_initialize_def)

lemma lazy_no_destructions_step:
  "lazy_initialize c a w = Inr w1 \<Longrightarrow> destructions (cells w1 b) = destructions (cells w b)"
  by (auto simp: lazy_initialize_def init_def Let_def split: option.splits if_splits)

lemma lazy_run_no_destructions:
  "lazy_run c cs w = Inr (rs, w') \<Longrightarrow> destructions (cells w' b) = destructions (cells w b)"
proof (induction cs arbitrary: w rs)
  case Nil
  then show ?case by simp
next
  case (Cons x cs)
  obtain a k where x: "x = (a, k)" by (cases x)
  show ?case
  proof (cases k)
    case Initialize
    then show ?thesis using Cons.prems Cons.IH lazy_no_destructions_step
      by (auto simp: x split: sum.splits)
  next
    case Destroy
    then show ?thesis using Cons.prems Cons.IH
      by (auto simp: x lazy_destroy_def)
  next
    case Get
    then show ?thesis using Cons.prems Cons.IH lazy_no_destructions_step
      by (auto simp: x lazy_get_def split: sum.splits prod.splits)
  qed
qed

text \<open>
  C1. Take one \<^verbatim>\<open>lazy_init\<close> instance, at address \<open>a\<close>, at program start, in either
  build, and any non-empty sequence \<open>cs\<close> of \<^verbatim>\<open>initialize()\<close> and \<^verbatim>\<open>get()\<close> calls on
  it. The run does not fail. It ends in one and the same state however long \<open>cs\<close> is,
  the state the first call alone leaves behind, so that no later call constructs
  anything: the storage of \<open>a\<close> has seen exactly one construction, its object 0 is
  alive, no other storage has been constructed in. Every \<^verbatim>\<open>get()\<close> returned the
  reference to that object 0 in the storage of \<open>a\<close>.
\<close>

theorem lazy_init_constructs_once:
  assumes "cs \<noteq> []" and "Destroy \<notin> set cs"
  shows "lazy_run checked (map (Pair a) cs) lazy_world_new
           = Inr (replicate (count_list cs Get) (a, Some 0), lazy_done checked a)
       \<and> lazy_run checked [(a, hd cs)] lazy_world_new
           = Inr (replicate (count_list [hd cs] Get) (a, Some 0), lazy_done checked a)
       \<and> constructions (cells (lazy_done checked a) a) = 1
       \<and> obj (cells (lazy_done checked a) a) = Some 0
       \<and> (\<forall>b. b \<noteq> a \<longrightarrow> constructions (cells (lazy_done checked a) b) = 0)"
proof -
  have whole: "lazy_run checked (map (Pair a) cs) lazy_world_new
           = Inr (replicate (count_list cs Get) (a, Some 0), lazy_done checked a)"
    using assms by (rule lazy_run_first)
  have "[hd cs] \<noteq> []" by simp
  moreover have "Destroy \<notin> set [hd cs]" using assms by (cases cs) auto
  ultimately have "lazy_run checked (map (Pair a) [hd cs]) lazy_world_new
           = Inr (replicate (count_list [hd cs] Get) (a, Some 0), lazy_done checked a)"
    by (rule lazy_run_first)
  then have first: "lazy_run checked [(a, hd cs)] lazy_world_new
           = Inr (replicate (count_list [hd cs] Get) (a, Some 0), lazy_done checked a)"
    by simp
  have state: "constructions (cells (lazy_done checked a) a) = 1"
      "obj (cells (lazy_done checked a) a) = Some 0"
      "\<forall>b. b \<noteq> a \<longrightarrow> constructions (cells (lazy_done checked a) b) = 0"
    by (simp_all add: lazy_done_def storage_new_def)
  from whole first state show ?thesis by blast
qed

text \<open>
  The sequence \<^verbatim>\<open>get(); initialize(); get()\<close> on the instance at address 7, in a checked
  build: both \<^verbatim>\<open>get()\<close> calls return object 0 of that storage, constructed once.
\<close>

theorem lazy_init_constructs_once_witness:
  "[Get, Initialize, Get] \<noteq> [] \<and> Destroy \<notin> set [Get, Initialize, Get]
   \<and> lazy_run True [(7, Get), (7, Initialize), (7, Get)] lazy_world_new
       = Inr ([(7, Some 0), (7, Some 0)], lazy_done True 7)
   \<and> constructions (cells (lazy_done True 7) 7) = 1"
proof -
  have n: "[Get, Initialize, Get] \<noteq> []" by simp
  have d: "Destroy \<notin> set [Get, Initialize, Get]" by simp
  note r = lazy_init_constructs_once [OF n d, of True 7]
  from r have "lazy_run True (map (Pair 7) [Get, Initialize, Get]) lazy_world_new
           = Inr (replicate (count_list [Get, Initialize, Get] Get) (7, Some 0), lazy_done True 7)"
    by (elim conjE)
  then have run: "lazy_run True [(7, Get), (7, Initialize), (7, Get)] lazy_world_new
       = Inr ([(7, Some 0), (7, Some 0)], lazy_done True 7)"
    by (simp add: numeral_2_eq_2)
  from r have c: "constructions (cells (lazy_done True 7) 7) = 1"
    by (elim conjE)
  from n d run c show ?thesis by blast
qed

text \<open>
  C7. In a checked build, let the instance at \<open>a\<close> be used first, by any non-empty
  sequence of \<^verbatim>\<open>initialize()\<close> and \<^verbatim>\<open>get()\<close> calls: that run succeeds and leaves the
  address \<open>a\<close> recorded in the static of the instantiation. The first
  \<^verbatim>\<open>initialize()\<close> or \<^verbatim>\<open>get()\<close> call on a second instance of the same type, at an
  address \<open>b\<close> other than \<open>a\<close>, then fails the assertion.
\<close>

theorem lazy_init_tag_collision:
  assumes "a \<noteq> b" and "cs \<noteq> []" and "Destroy \<notin> set cs" and "c \<noteq> Destroy"
  shows "lazy_run True (map (Pair a) cs) lazy_world_new
           = Inr (replicate (count_list cs Get) (a, Some 0), lazy_done True a)
       \<and> static_initializer (lazy_done True a) = Some (Ptr a)
       \<and> lazy_run True (map (Pair a) cs @ [(b, c)]) lazy_world_new = Inl AssertionFailed"
proof -
  have first: "lazy_run True (map (Pair a) cs) lazy_world_new
           = Inr (replicate (count_list cs Get) (a, Some 0), lazy_done True a)"
    using assms(2,3) by (rule lazy_run_first)
  have rec: "static_initializer (lazy_done True a) = Some (Ptr a)"
    by (simp add: lazy_done_def)
  have fail: "lazy_initialize True b (lazy_done True a) = Inl AssertionFailed"
    using assms(1) rec by (rule lazy_initialize_other)
  have "lazy_run True [(b, c)] (lazy_done True a) = Inl AssertionFailed"
    using assms(4) by (cases c) (simp_all add: fail lazy_get_def)
  then have second: "lazy_run True (map (Pair a) cs @ [(b, c)]) lazy_world_new = Inl AssertionFailed"
    by (simp add: lazy_run_append first)
  from first rec second show ?thesis by blast
qed

text \<open>
  Two instances at addresses 1 and 2: after \<^verbatim>\<open>get()\<close> on the first, \<^verbatim>\<open>get()\<close> on the
  second fails the assertion.
\<close>

theorem lazy_init_tag_collision_witness:
  "(1::nat) \<noteq> 2 \<and> [Get] \<noteq> [] \<and> Destroy \<notin> set [Get] \<and> Get \<noteq> Destroy
   \<and> lazy_run True [(1, Get)] lazy_world_new = Inr ([(1, Some 0)], lazy_done True 1)
   \<and> lazy_run True [(1, Get), (2, Get)] lazy_world_new = Inl AssertionFailed"
proof -
  have h: "(1::nat) \<noteq> 2" "[Get] \<noteq> []" "Destroy \<notin> set [Get]" "Get \<noteq> Destroy"
    by simp_all
  note r = lazy_init_tag_collision [OF h]
  from r have "lazy_run True (map (Pair 1) [Get]) lazy_world_new
           = Inr (replicate (count_list [Get] Get) (1, Some 0), lazy_done True 1)"
    by (elim conjE)
  then have one: "lazy_run True [(1, Get)] lazy_world_new = Inr ([(1, Some 0)], lazy_done True 1)"
    by simp
  from r have "lazy_run True (map (Pair 1) [Get] @ [(2, Get)]) lazy_world_new = Inl AssertionFailed"
    by (elim conjE)
  then have two: "lazy_run True [(1, Get), (2, Get)] lazy_world_new = Inl AssertionFailed"
    by simp
  from h one two show ?thesis by blast
qed

text \<open>
  C8. \<^verbatim>\<open>lazy_init::destroy()\<close> changes nothing: the state after it is the state before
  it, a \<^verbatim>\<open>get()\<close> after it does what it would have done before it, and taking a
  \<^verbatim>\<open>destroy()\<close> call out of any sequence of calls changes neither the references
  returned nor the final state. No call of \<^verbatim>\<open>lazy_init\<close> ever runs a destructor: over
  any sequence of calls the destructor count of every storage stays what it was. So after
  \<^verbatim>\<open>get()\<close>, then \<^verbatim>\<open>destroy()\<close>, any number of further \<^verbatim>\<open>get()\<close> calls return the
  reference to the same object 0, still alive.
\<close>

theorem lazy_destroy_leaks:
  "lazy_destroy this w = w
   \<and> lazy_get checked a (lazy_destroy this w) = lazy_get checked a w
   \<and> lazy_run checked (xs @ (this, Destroy) # ys) w = lazy_run checked (xs @ ys) w
   \<and> (lazy_run checked zs w = Inr (rs, w') \<longrightarrow> destructions (cells w' b) = destructions (cells w b))
   \<and> lazy_run checked ((a, Get) # (a, Destroy) # map (Pair a) (replicate n Get)) lazy_world_new
       = Inr (replicate (Suc n) (a, Some 0), lazy_done checked a)
   \<and> obj (cells (lazy_done checked a) a) = Some 0
   \<and> destructions (cells (lazy_done checked a) a) = 0"
proof -
  have noop: "lazy_destroy this w = w" by (simp add: lazy_destroy_def)
  have get: "lazy_get checked a (lazy_destroy this w) = lazy_get checked a w"
    by (simp add: lazy_destroy_def)
  have "lazy_run checked ((this, Destroy) # ys) v = lazy_run checked ys v" for v
    by (simp add: lazy_destroy_def)
  then have frame: "lazy_run checked (xs @ (this, Destroy) # ys) w = lazy_run checked (xs @ ys) w"
    unfolding lazy_run_append by (simp split: sum.splits prod.splits)
  have never: "lazy_run checked zs w = Inr (rs, w') \<longrightarrow> destructions (cells w' b) = destructions (cells w b)"
    using lazy_run_no_destructions by blast
  have d: "static_initializer (lazy_done checked a) = Some (if checked then Ptr a else Flag True)"
    by (simp add: lazy_done_def)
  have alive: "obj (cells (lazy_done checked a) a) = Some 0"
      and none: "destructions (cells (lazy_done checked a) a) = 0"
    by (simp_all add: lazy_done_def)
  have g: "lazy_get checked a lazy_world_new = Inr ((a, Some 0), lazy_done checked a)"
    by (simp add: lazy_get_def lazy_initialize_new storage_get_def alive)
  have k: "count_list (replicate n Get) Get = n"
    by (induction n) simp_all
  have "lazy_run checked (map (Pair a) (replicate n Get)) (lazy_done checked a)
      = Inr (replicate n (a, Some 0), lazy_done checked a)"
    using lazy_run_done [OF d, of "replicate n Get"] by (simp only: alive k)
  then have after: "lazy_run checked ((a, Get) # (a, Destroy) # map (Pair a) (replicate n Get)) lazy_world_new
       = Inr (replicate (Suc n) (a, Some 0), lazy_done checked a)"
    by (simp add: g lazy_destroy_def)
  from noop get frame never after alive none show ?thesis by blast
qed

text \<open>
  The run \<^verbatim>\<open>get(); destroy(); get()\<close> on the instance at address 3 in an unchecked
  build ends normally and has run no destructor on that storage.
\<close>

theorem lazy_destroy_leaks_witness:
  "lazy_run False [(3, Get), (3, Destroy), (3, Get)] lazy_world_new
     = Inr ([(3, Some 0), (3, Some 0)], lazy_done False 3)
   \<and> destructions (cells (lazy_done False 3) 3) = destructions (cells lazy_world_new 3)"
proof -
  note r = lazy_destroy_leaks [of 3 lazy_world_new False 3 "[]" "[]" "[(3, Get), (3, Destroy), (3, Get)]"
      "[(3, Some 0), (3, Some 0)]" "lazy_done False 3" 3 1]
  from r have "lazy_run False ((3, Get) # (3, Destroy) # map (Pair 3) (replicate 1 Get)) lazy_world_new
       = Inr (replicate (Suc 1) (3, Some 0), lazy_done False 3)"
    by (elim conjE)
  then have run: "lazy_run False [(3, Get), (3, Destroy), (3, Get)] lazy_world_new
     = Inr ([(3, Some 0), (3, Some 0)], lazy_done False 3)"
    by (simp add: numeral_2_eq_2)
  from r have "lazy_run False [(3, Get), (3, Destroy), (3, Get)] lazy_world_new
        = Inr ([(3, Some 0), (3, Some 0)], lazy_done False 3)
      \<longrightarrow> destructions (cells (lazy_done False 3) 3) = destructions (cells lazy_world_new 3)"
    by (elim conjE)
  with run have "destructions (cells (lazy_done False 3) 3) = destructions (cells lazy_world_new 3)"
    by (rule rev_mp)
  with run show ?thesis by (rule conjI)
qed

section \<open>Properties of nifty_init\<close>

lemma count_zero_iff: "d < 2 ^ 31 \<Longrightarrow> (of_nat d :: 32 word) = 0 \<longleftrightarrow> d = 0"
  using of_nat_neq_0 [of d, where 'a = 32] by auto

lemma count_pred: "0 < d \<Longrightarrow> (of_nat d :: 32 word) - 1 = of_nat (d - 1)"
  by (cases d) simp_all



lemma sint_count: "d < 2 ^ 31 \<Longrightarrow> sint (of_nat d :: 32 word) = int d"
  using int_word_sint [of "int d", where 'a = 32] by simp

lemma matched_take: "matched d t \<Longrightarrow> matched d (take k t)"
proof (induction t arbitrary: d k)
  case Nil
  then show ?case by simp
next
  case (Cons c t)
  then show ?case by (cases k; cases c) auto
qed

lemma nifty_initialize_fields:
  "n_count (nifty_initialize n) = n_count n + 1"
  "constructions (n_storage (nifty_initialize n))
     = constructions (n_storage n) + (if n_count n = 0 then 1 else 0)"
  "destructions (n_storage (nifty_initialize n)) = destructions (n_storage n)"
  by (simp_all add: nifty_initialize_def init_def Let_def)

lemma nifty_destroy_fields:
  "n_count (nifty_destroy n) = n_count n - 1"
  "constructions (n_storage (nifty_destroy n)) = constructions (n_storage n)"
  "destructions (n_storage (nifty_destroy n))
     = destructions (n_storage n) + (if n_count n - 1 = 0 then 1 else 0)"
  by (simp_all add: nifty_destroy_def destruct_def Let_def)

lemma nifty_initialize_step:
  assumes "d < 2 ^ 31" and "n_count n = of_nat d"
  shows "n_count (nifty_initialize n) = of_nat (Suc d)"
    and "constructions (n_storage (nifty_initialize n))
         = constructions (n_storage n) + (if d = 0 then 1 else 0)"
    and "destructions (n_storage (nifty_initialize n)) = destructions (n_storage n)"
proof -
  have z: "n_count n = 0 \<longleftrightarrow> d = 0"
    unfolding assms(2) using assms(1) by (rule count_zero_iff)
  show "n_count (nifty_initialize n) = of_nat (Suc d)"
    unfolding nifty_initialize_fields assms(2) by simp
  show "constructions (n_storage (nifty_initialize n))
         = constructions (n_storage n) + (if d = 0 then 1 else 0)"
    unfolding nifty_initialize_fields z ..
  show "destructions (n_storage (nifty_initialize n)) = destructions (n_storage n)"
    by (rule nifty_initialize_fields)
qed

lemma nifty_destroy_step:
  assumes "0 < d" and "d < 2 ^ 31" and "n_count n = of_nat d"
  shows "n_count (nifty_destroy n) = of_nat (d - 1)"
    and "constructions (n_storage (nifty_destroy n)) = constructions (n_storage n)"
    and "destructions (n_storage (nifty_destroy n))
         = destructions (n_storage n) + (if d = 1 then 1 else 0)"
proof -
  have p: "n_count n - 1 = of_nat (d - 1)"
    unfolding assms(3) using assms(1) by (rule count_pred)
  have "d - 1 < 2 ^ 31" using assms(2) by arith
  then have "(of_nat (d - 1) :: 32 word) = 0 \<longleftrightarrow> d - 1 = 0"
    by (rule count_zero_iff)
  moreover have "d - 1 = 0 \<longleftrightarrow> d = 1" using assms(1) by arith
  ultimately have z: "n_count n - 1 = 0 \<longleftrightarrow> d = 1"
    unfolding p by (rule trans)
  show "n_count (nifty_destroy n) = of_nat (d - 1)"
    unfolding nifty_destroy_fields p ..
  show "constructions (n_storage (nifty_destroy n)) = constructions (n_storage n)"
    by (rule nifty_destroy_fields)
  show "destructions (n_storage (nifty_destroy n))
         = destructions (n_storage n) + (if d = 1 then 1 else 0)"
    unfolding nifty_destroy_fields z ..
qed

lemma nifty_calls_counts:
  "matched d t \<Longrightarrow> d + length t < 2 ^ 31 \<Longrightarrow> n_count n = of_nat d \<Longrightarrow>
     n_count (nifty_calls t n) = of_nat (unmatched d t)
     \<and> unmatched d t \<le> d + length t
     \<and> constructions (n_storage (nifty_calls t n)) = constructions (n_storage n) + claims_at_zero d t
     \<and> destructions (n_storage (nifty_calls t n)) = destructions (n_storage n) + releases_to_zero d t"
proof (induction t arbitrary: d n)
  case Nil
  have "n_count n = of_nat d" by (rule Nil.prems(3))
  then show ?case by simp
next
  case (Cons c t)
  have len: "d + Suc (length t) < 2 ^ 31" using Cons.prems(2) by simp
  show ?case
  proof (cases c)
    case NiftyInitialize
    have m: "matched (Suc d) t" using Cons.prems(1) unfolding NiftyInitialize by simp
    have b: "Suc d + length t < 2 ^ 31" using len by arith
    have d: "d < 2 ^ 31" using len by arith
    note st = nifty_initialize_step [OF d Cons.prems(3)]
    note ih = Cons.IH [OF m b st(1)]
    from ih have "unmatched (Suc d) t \<le> Suc d + length t" by (elim conjE)
    then have "unmatched (Suc d) t \<le> d + length (c # t)" by simp
    then show ?thesis
      unfolding NiftyInitialize using ih
      by (simp add: st(2,3))
  next
    case NiftyDestroy
    have pos: "0 < d" and m: "matched (d - 1) t"
      using Cons.prems(1) unfolding NiftyDestroy by simp_all
    have b: "(d - 1) + length t < 2 ^ 31" using len by arith
    have d: "d < 2 ^ 31" using len by arith
    note st = nifty_destroy_step [OF pos d Cons.prems(3)]
    note ih = Cons.IH [OF m b st(1)]
    from ih have "unmatched (d - 1) t \<le> (d - 1) + length t" by (elim conjE)
    then have "unmatched (d - 1) t \<le> d + length (c # t)" by simp
    then show ?thesis
      unfolding NiftyDestroy using ih
      by (simp add: st(2,3))
  qed
qed

lemma nifty_calls_append: "nifty_calls (xs @ ys) n = nifty_calls ys (nifty_calls xs n)"
proof (induction xs arbitrary: n)
  case Nil
  show ?case by simp
next
  case (Cons c xs)
  then show ?case by (cases c) simp_all
qed

lemma unmatched_append: "unmatched d (xs @ ys) = unmatched (unmatched d xs) ys"
proof (induction xs arbitrary: d)
  case Nil
  show ?case by simp
next
  case (Cons c xs)
  then show ?case by (cases c) simp_all
qed

lemma claims_at_zero_append:
  "claims_at_zero d (xs @ ys) = claims_at_zero d xs + claims_at_zero (unmatched d xs) ys"
proof (induction xs arbitrary: d)
  case Nil
  show ?case by simp
next
  case (Cons c xs)
  then show ?case by (cases c) simp_all
qed

lemma releases_to_zero_append:
  "releases_to_zero d (xs @ ys) = releases_to_zero d xs + releases_to_zero (unmatched d xs) ys"
proof (induction xs arbitrary: d)
  case Nil
  show ?case by simp
next
  case (Cons c xs)
  then show ?case by (cases c) simp_all
qed

lemma matched_above:
  "matched d t \<Longrightarrow>
     unmatched (Suc d) t = Suc (unmatched d t)
     \<and> claims_at_zero (Suc d) t = 0 \<and> releases_to_zero (Suc d) t = 0"
proof (induction t arbitrary: d)
  case Nil
  show ?case by simp
next
  case (Cons c t)
  show ?case
  proof (cases c)
    case NiftyInitialize
    with Cons show ?thesis by simp
  next
    case NiftyDestroy
    with Cons.prems have pos: "0 < d" and m: "matched (d - 1) t" by simp_all
    from pos have s: "Suc (d - 1) = d" by simp
    from Cons.IH [OF m] show ?thesis
      unfolding s NiftyDestroy using pos by simp
  qed
qed

lemma nifty_prefix_count:
  assumes "matched 0 t" and "length t < 2 ^ 31" and "k \<le> length t"
  shows "0 \<le> sint (n_count (nifty_calls (take k t) nifty_init_new))"
proof -
  have m: "matched 0 (take k t)" using assms(1) by (rule matched_take)
  have l: "0 + length (take k t) < 2 ^ 31" using assms(2,3) by simp
  have c: "n_count nifty_init_new = of_nat 0" by (simp add: nifty_init_new_def)
  note r = nifty_calls_counts [OF m l c]
  from r have e: "n_count (nifty_calls (take k t) nifty_init_new) = of_nat (unmatched 0 (take k t))"
    by (elim conjE)
  from r have u: "unmatched 0 (take k t) \<le> 0 + length (take k t)"
    by (elim conjE)
  have "unmatched 0 (take k t) < 2 ^ 31" using u l by arith
  then have "sint (of_nat (unmatched 0 (take k t)) :: 32 word) = int (unmatched 0 (take k t))"
    by (rule sint_count)
  then show ?thesis unfolding e by simp
qed

lemma nifty_trace_counts:
  assumes "matched 0 t" and "length t < 2 ^ 31"
  shows "constructions (n_storage (nifty_calls t nifty_init_new)) = claims_at_zero 0 t"
    and "destructions (n_storage (nifty_calls t nifty_init_new)) = releases_to_zero 0 t"
    and "n_count (nifty_calls t nifty_init_new) = of_nat (unmatched 0 t)"
proof -
  have l: "0 + length t < 2 ^ 31" using assms(2) by simp
  have c: "n_count nifty_init_new = of_nat 0" by (simp add: nifty_init_new_def)
  have z: "constructions (n_storage nifty_init_new) = 0" "destructions (n_storage nifty_init_new) = 0"
    by (simp_all add: nifty_init_new_def storage_new_def)
  note r = nifty_calls_counts [OF assms(1) l c, unfolded z]
  from r show "constructions (n_storage (nifty_calls t nifty_init_new)) = claims_at_zero 0 t"
    by simp
  from r show "destructions (n_storage (nifty_calls t nifty_init_new)) = releases_to_zero 0 t"
    by simp
  from r show "n_count (nifty_calls t nifty_init_new) = of_nat (unmatched 0 t)"
    by (elim conjE)
qed

lemma matched_append: "matched d (xs @ ys) \<longleftrightarrow> matched d xs \<and> matched (unmatched d xs) ys"
proof (induction xs arbitrary: d)
  case Nil
  show ?case by simp
next
  case (Cons c xs)
  then show ?case by (cases c) simp_all
qed

lemma matched_Suc: "matched d t \<Longrightarrow> matched (Suc d) t"
proof (induction t arbitrary: d)
  case Nil
  show ?case by simp
next
  case (Cons c t)
  show ?case
  proof (cases c)
    case NiftyInitialize
    with Cons show ?thesis by simp
  next
    case NiftyDestroy
    with Cons.prems have pos: "0 < d" and m: "matched (d - 1) t" by simp_all
    from pos have s: "Suc (d - 1) = d" by simp
    from Cons.IH [OF m] show ?thesis
      unfolding s NiftyDestroy by simp
  qed
qed

lemma nifty_single_lifetime:
  assumes "matched 0 body" and "unmatched 0 body = 0"
  shows "matched 0 (NiftyInitialize # body @ [NiftyDestroy])"
    and "claims_at_zero 0 (NiftyInitialize # body @ [NiftyDestroy]) = 1"
    and "releases_to_zero 0 (NiftyInitialize # body @ [NiftyDestroy]) = 1"
    and "releases_to_zero 0 (NiftyInitialize # body) = 0"
    and "unmatched 0 (NiftyInitialize # body @ [NiftyDestroy]) = 0"
    and "matched 0 (NiftyInitialize # body)"
proof -
  note a = matched_above [OF assms(1), unfolded assms(2)]
  have m1: "matched (Suc 0) body" using assms(1) by (rule matched_Suc)
  from a have u: "unmatched (Suc 0) body = Suc 0" by (elim conjE)
  from a have c: "claims_at_zero (Suc 0) body = 0" by (elim conjE)
  from a have r: "releases_to_zero (Suc 0) body = 0" by (elim conjE)
  show "matched 0 (NiftyInitialize # body @ [NiftyDestroy])"
    by (simp add: matched_append m1 u)
  show "claims_at_zero 0 (NiftyInitialize # body @ [NiftyDestroy]) = 1"
    by (simp add: claims_at_zero_append c u)
  show "releases_to_zero 0 (NiftyInitialize # body @ [NiftyDestroy]) = 1"
    by (simp add: releases_to_zero_append r u)
  show "releases_to_zero 0 (NiftyInitialize # body) = 0"
    by (simp add: r)
  show "unmatched 0 (NiftyInitialize # body @ [NiftyDestroy]) = 0"
    by (simp add: unmatched_append u)
  show "matched 0 (NiftyInitialize # body)"
    by (simp add: m1)
qed

text \<open>
  C2, as the claim states it, fails: the trace \<^verbatim>\<open>initialize(); destroy(); initialize();
  destroy()\<close> is well matched, and \<^verbatim>\<open>T\<close> is constructed twice and destructed twice.
\<close>

theorem nifty_init_reconstructs_counterexample:
  "matched 0 [NiftyInitialize, NiftyDestroy, NiftyInitialize, NiftyDestroy]
   \<and> constructions (n_storage (nifty_calls [NiftyInitialize, NiftyDestroy, NiftyInitialize, NiftyDestroy] nifty_init_new)) = 2
   \<and> destructions (n_storage (nifty_calls [NiftyInitialize, NiftyDestroy, NiftyInitialize, NiftyDestroy] nifty_init_new)) = 2"
  by (simp add: nifty_initialize_def nifty_destroy_def nifty_init_new_def storage_new_def
      init_def destruct_def Let_def)

text \<open>
  C2, amended. \<^verbatim>\<open>initialize()\<close> increments the counter and constructs \<^verbatim>\<open>T\<close> exactly
  when the value before the increment was 0; \<^verbatim>\<open>destroy()\<close> decrements it and runs the
  destructor exactly when the value after the decrement is 0. On a fresh instance, over
  a well-matched trace \<open>t\<close> of fewer than \<open>2 ^ 31\<close> calls (so that the \<^verbatim>\<open>int\<close> counter
  cannot wrap): the counter is not negative after any prefix; \<^verbatim>\<open>T\<close> is constructed once
  for every \<^verbatim>\<open>initialize()\<close> made while no claim is outstanding and destructed once for
  every \<^verbatim>\<open>destroy()\<close> that releases the last outstanding claim; and when the count
  returns to zero at the last call of \<open>t\<close> and not before, \<^verbatim>\<open>T\<close> is constructed
  exactly once, by the first call, and destructed exactly once, by the last.
\<close>

theorem nifty_init_refcount:
  assumes "matched 0 t" and "length t < 2 ^ 31"
  shows "(\<forall>n. n_count (nifty_initialize n) = n_count n + 1
            \<and> constructions (n_storage (nifty_initialize n))
                = constructions (n_storage n) + (if n_count n = 0 then 1 else 0)
            \<and> n_count (nifty_destroy n) = n_count n - 1
            \<and> destructions (n_storage (nifty_destroy n))
                = destructions (n_storage n) + (if n_count n - 1 = 0 then 1 else 0))
       \<and> (\<forall>k \<le> length t. 0 \<le> sint (n_count (nifty_calls (take k t) nifty_init_new)))
       \<and> constructions (n_storage (nifty_calls t nifty_init_new)) = claims_at_zero 0 t
       \<and> destructions (n_storage (nifty_calls t nifty_init_new)) = releases_to_zero 0 t
       \<and> (\<forall>body. t = NiftyInitialize # body @ [NiftyDestroy] \<and> matched 0 body \<and> unmatched 0 body = 0 \<longrightarrow>
             constructions (n_storage (nifty_calls [NiftyInitialize] nifty_init_new)) = 1
             \<and> constructions (n_storage (nifty_calls t nifty_init_new)) = 1
             \<and> destructions (n_storage (nifty_calls (NiftyInitialize # body) nifty_init_new)) = 0
             \<and> destructions (n_storage (nifty_calls t nifty_init_new)) = 1
             \<and> n_count (nifty_calls t nifty_init_new) = 0)"
proof -
  have steps: "\<forall>n. n_count (nifty_initialize n) = n_count n + 1
            \<and> constructions (n_storage (nifty_initialize n))
                = constructions (n_storage n) + (if n_count n = 0 then 1 else 0)
            \<and> n_count (nifty_destroy n) = n_count n - 1
            \<and> destructions (n_storage (nifty_destroy n))
                = destructions (n_storage n) + (if n_count n - 1 = 0 then 1 else 0)"
    by (simp add: nifty_initialize_fields nifty_destroy_fields)
  have prefixes: "\<forall>k \<le> length t. 0 \<le> sint (n_count (nifty_calls (take k t) nifty_init_new))"
    using nifty_prefix_count [OF assms] by blast
  note counts = nifty_trace_counts [OF assms]
  have single: "constructions (n_storage (nifty_calls [NiftyInitialize] nifty_init_new)) = 1
             \<and> constructions (n_storage (nifty_calls t nifty_init_new)) = 1
             \<and> destructions (n_storage (nifty_calls (NiftyInitialize # body) nifty_init_new)) = 0
             \<and> destructions (n_storage (nifty_calls t nifty_init_new)) = 1
             \<and> n_count (nifty_calls t nifty_init_new) = 0"
    if t: "t = NiftyInitialize # body @ [NiftyDestroy]" and b: "matched 0 body" "unmatched 0 body = 0"
    for body
  proof -
    note s = nifty_single_lifetime [OF b]
    have l: "length (NiftyInitialize # body) < 2 ^ 31" using assms(2) unfolding t by simp
    have first: "constructions (n_storage (nifty_calls [NiftyInitialize] nifty_init_new)) = 1"
      by (simp add: nifty_initialize_fields nifty_init_new_def storage_new_def)
    have before: "destructions (n_storage (nifty_calls (NiftyInitialize # body) nifty_init_new)) = 0"
      unfolding nifty_trace_counts(2) [OF s(6) l] by (rule s(4))
    have c: "constructions (n_storage (nifty_calls t nifty_init_new)) = 1"
      unfolding counts(1) unfolding t by (rule s(2))
    have d: "destructions (n_storage (nifty_calls t nifty_init_new)) = 1"
      unfolding counts(2) unfolding t by (rule s(3))
    have z: "n_count (nifty_calls t nifty_init_new) = 0"
      unfolding counts(3) unfolding t s(5) by simp
    from first before c d z show ?thesis by blast
  qed
  from steps prefixes counts(1,2) single show ?thesis by blast
qed

text \<open>
  The trace \<^verbatim>\<open>initialize(); initialize(); destroy(); destroy()\<close>: one construction,
  one destruction, at the last call.
\<close>

theorem nifty_init_refcount_witness:
  "matched 0 [NiftyInitialize, NiftyInitialize, NiftyDestroy, NiftyDestroy]
   \<and> length [NiftyInitialize, NiftyInitialize, NiftyDestroy, NiftyDestroy] < (2::nat) ^ 31
   \<and> matched 0 [NiftyInitialize, NiftyDestroy] \<and> unmatched 0 [NiftyInitialize, NiftyDestroy] = 0
   \<and> 0 \<le> sint (n_count (nifty_calls (take 3 [NiftyInitialize, NiftyInitialize, NiftyDestroy, NiftyDestroy]) nifty_init_new))
   \<and> constructions (n_storage (nifty_calls [NiftyInitialize, NiftyInitialize, NiftyDestroy, NiftyDestroy] nifty_init_new)) = 1
   \<and> destructions (n_storage (nifty_calls [NiftyInitialize, NiftyInitialize, NiftyDestroy] nifty_init_new)) = 0
   \<and> destructions (n_storage (nifty_calls [NiftyInitialize, NiftyInitialize, NiftyDestroy, NiftyDestroy] nifty_init_new)) = 1
   \<and> n_count (nifty_calls [NiftyInitialize, NiftyInitialize, NiftyDestroy, NiftyDestroy] nifty_init_new) = 0"
proof -
  let ?t = "[NiftyInitialize, NiftyInitialize, NiftyDestroy, NiftyDestroy]"
  let ?body = "[NiftyInitialize, NiftyDestroy]"
  have m: "matched 0 ?t" by simp
  have l: "length ?t < 2 ^ 31" by simp
  have b: "?t = NiftyInitialize # ?body @ [NiftyDestroy] \<and> matched 0 ?body \<and> unmatched 0 ?body = 0"
    by simp
  note r = nifty_init_refcount [OF m l]
  from r have "\<forall>k \<le> length ?t. 0 \<le> sint (n_count (nifty_calls (take k ?t) nifty_init_new))"
    by (elim conjE)
  then have "3 \<le> length ?t \<longrightarrow> 0 \<le> sint (n_count (nifty_calls (take 3 ?t) nifty_init_new))"
    by (rule spec)
  then have p: "0 \<le> sint (n_count (nifty_calls (take 3 ?t) nifty_init_new))"
    by simp
  from r b have s: "constructions (n_storage (nifty_calls ?t nifty_init_new)) = 1
             \<and> destructions (n_storage (nifty_calls (NiftyInitialize # ?body) nifty_init_new)) = 0
             \<and> destructions (n_storage (nifty_calls ?t nifty_init_new)) = 1
             \<and> n_count (nifty_calls ?t nifty_init_new) = 0"
    by blast
  from m l b p s show ?thesis by blast
qed

text \<open>
  C10. \<^verbatim>\<open>nifty_init::reference()\<close> has no build switch and no way to fail: it returns
  the reference to the storage whatever the count is. On a fresh instance, and on one
  whose only claim has been released, it returns the reference to storage in which no
  object lives, where \<^verbatim>\<open>get()\<close> fails its assertion in a checked build. In general a
  checked \<^verbatim>\<open>get()\<close> returns that same reference when the count is positive and fails
  otherwise; an unchecked \<^verbatim>\<open>get()\<close> is \<^verbatim>\<open>reference()\<close>.
\<close>

theorem nifty_reference_unchecked:
  "nifty_reference n = storage_get (n_storage n)
   \<and> nifty_reference nifty_init_new = None
   \<and> nifty_get True nifty_init_new = Inl AssertionFailed
   \<and> n_count (nifty_destroy (nifty_initialize nifty_init_new)) = 0
   \<and> nifty_reference (nifty_destroy (nifty_initialize nifty_init_new)) = None
   \<and> nifty_get True (nifty_destroy (nifty_initialize nifty_init_new)) = Inl AssertionFailed
   \<and> nifty_get True n
       = (if 0 < sint (n_count n) then Inr (nifty_reference n) else Inl AssertionFailed)
   \<and> nifty_get False n = Inr (nifty_reference n)"
proof -
  have fresh: "nifty_reference nifty_init_new = None"
      "nifty_get True nifty_init_new = Inl AssertionFailed"
    by (simp_all add: nifty_reference_def nifty_get_def nifty_init_new_def storage_get_def
        storage_new_def)
  have c: "n_count (nifty_destroy (nifty_initialize nifty_init_new)) = 0"
    by (simp add: nifty_destroy_fields nifty_initialize_fields nifty_init_new_def)
  have o: "obj (n_storage (nifty_destroy (nifty_initialize nifty_init_new))) = None"
    by (simp add: nifty_destroy_def nifty_initialize_def nifty_init_new_def destruct_def Let_def)
  have released: "nifty_reference (nifty_destroy (nifty_initialize nifty_init_new)) = None"
      "nifty_get True (nifty_destroy (nifty_initialize nifty_init_new)) = Inl AssertionFailed"
    by (simp_all add: nifty_reference_def nifty_get_def storage_get_def c o)
  have general: "nifty_reference n = storage_get (n_storage n)"
      "nifty_get True n
       = (if 0 < sint (n_count n) then Inr (nifty_reference n) else Inl AssertionFailed)"
      "nifty_get False n = Inr (nifty_reference n)"
    by (simp_all add: nifty_reference_def nifty_get_def)
  from fresh c released general show ?thesis by blast
qed

section \<open>Properties of scoped_initializer\<close>

lemma initialize_fold_returns:
  "\<forall>e \<in> set ents. returns (ent_initialize e) \<Longrightarrow>
     fst (initialize_fold ents (log, w)) = Returned
     \<and> fst (snd (initialize_fold ents (log, w))) = log @ map (\<lambda>e. InitializeCalled (ent_name e)) ents"
proof (induction ents arbitrary: log w)
  case Nil
  show ?case by simp
next
  case (Cons e es)
  have "fst (ent_initialize e w) = Returned"
    using Cons.prems by (simp add: returns_def)
  then obtain w1 where e: "ent_initialize e w = (Returned, w1)"
    by (cases "ent_initialize e w") simp
  have "\<forall>e \<in> set es. returns (ent_initialize e)" using Cons.prems by simp
  from Cons.IH [OF this] show ?case by (simp add: e)
qed

lemma destroy_fold_returns:
  "\<forall>e \<in> set ents. returns (ent_destroy e) \<Longrightarrow>
     fst (destroy_fold ents (log, w)) = Returned
     \<and> fst (snd (destroy_fold ents (log, w))) = log @ map (\<lambda>e. DestroyCalled (ent_name e)) (rev ents)"
proof (induction ents)
  case Nil
  show ?case by simp
next
  case (Cons e es)
  have "\<forall>e \<in> set es. returns (ent_destroy e)" using Cons.prems by simp
  from Cons.IH [OF this] obtain w1 where
    f: "destroy_fold es (log, w) = (Returned, (log @ map (\<lambda>e. DestroyCalled (ent_name e)) (rev es), w1))"
    by (cases "destroy_fold es (log, w)") auto
  have "fst (ent_destroy e w1) = Returned"
    using Cons.prems by (simp add: returns_def)
  then obtain w2 where e: "ent_destroy e w1 = (Returned, w2)"
    by (cases "ent_destroy e w1") simp
  show ?case by (simp add: f e)
qed



lemma initialize_fold_state:
  "\<forall>e \<in> set ents. returns (ent_initialize e) \<Longrightarrow>
     snd (snd (initialize_fold ents (log, w))) = foldl (\<lambda>v e. snd (ent_initialize e v)) w ents"
proof (induction ents arbitrary: log w)
  case Nil
  show ?case by simp
next
  case (Cons e es)
  have "fst (ent_initialize e w) = Returned"
    using Cons.prems by (simp add: returns_def)
  then obtain w1 where e: "ent_initialize e w = (Returned, w1)"
    by (cases "ent_initialize e w") simp
  have "\<forall>e \<in> set es. returns (ent_initialize e)" using Cons.prems by simp
  from Cons.IH [OF this] show ?case by (simp add: e)
qed

lemma destroy_fold_state:
  "\<forall>e \<in> set ents. returns (ent_destroy e) \<Longrightarrow>
     snd (snd (destroy_fold ents (log, w))) = foldr (\<lambda>e v. snd (ent_destroy e v)) ents w"
proof (induction ents)
  case Nil
  show ?case by simp
next
  case (Cons e es)
  have r: "\<forall>e \<in> set es. returns (ent_destroy e)" using Cons.prems by simp
  from destroy_fold_returns [OF r, of log w] Cons.IH [OF r] obtain l where
    f: "destroy_fold es (log, w) = (Returned, (l, foldr (\<lambda>e v. snd (ent_destroy e v)) es w))"
    by (cases "destroy_fold es (log, w)") auto
  show ?case by (simp add: f split: prod.splits)
qed

lemma recording_entity_returns:
  "returns (ent_initialize (recording_entity k))" "returns (ent_destroy (recording_entity k))"
  by (simp_all add: returns_def recording_entity_def)

text \<open>
  C3. Let every \<^verbatim>\<open>initialize()\<close> and \<^verbatim>\<open>destroy()\<close> of the entities return. Then the
  constructor calls \<^verbatim>\<open>initialize()\<close> on each entity in declared order and returns: the
  program state it leaves is the effect of the entities' own \<^verbatim>\<open>initialize()\<close>
  functions, applied one after the other from left to right. The destructor calls
  \<^verbatim>\<open>destroy()\<close> on each entity in the reverse order and returns: the state it leaves is
  the effect of the entities' own \<^verbatim>\<open>destroy()\<close> functions, applied from right to left.
  A block that declares the group makes exactly these calls, first the one sequence,
  then its body on the state the constructor left, then the other sequence on the state
  the body left, whether the body returns or raises, and ends the way its body did.
\<close>

theorem scoped_initializer_order:
  assumes "\<forall>e \<in> set ents. returns (ent_initialize e) \<and> returns (ent_destroy e)"
    and "\<forall>v. fst (body v) \<noteq> Terminated"
  shows "fst (scoped_initializer_ctor ents (log, w)) = Returned
       \<and> fst (snd (scoped_initializer_ctor ents (log, w)))
           = log @ map (\<lambda>e. InitializeCalled (ent_name e)) ents
       \<and> snd (snd (scoped_initializer_ctor ents (log, w)))
           = foldl (\<lambda>v e. snd (ent_initialize e v)) w ents
       \<and> fst (scoped_initializer_dtor ents (log, w)) = Returned
       \<and> fst (snd (scoped_initializer_dtor ents (log, w)))
           = log @ map (\<lambda>e. DestroyCalled (ent_name e)) (rev ents)
       \<and> snd (snd (scoped_initializer_dtor ents (log, w)))
           = foldl (\<lambda>v e. snd (ent_destroy e v)) w (rev ents)
       \<and> fst (snd (scope ents body (log, w)))
           = log @ map (\<lambda>e. InitializeCalled (ent_name e)) ents
                 @ map (\<lambda>e. DestroyCalled (ent_name e)) (rev ents)
       \<and> snd (snd (scope ents body (log, w)))
           = foldl (\<lambda>v e. snd (ent_destroy e v))
               (snd (body (foldl (\<lambda>v e. snd (ent_initialize e v)) w ents))) (rev ents)
       \<and> fst (scope ents body (log, w))
           = fst (body (foldl (\<lambda>v e. snd (ent_initialize e v)) w ents))
       \<and> fst (scope ents body (log, w))
           = fst (body (snd (snd (scoped_initializer_ctor ents (log, w)))))"
proof -
  have i: "\<forall>e \<in> set ents. returns (ent_initialize e)"
    and d: "\<forall>e \<in> set ents. returns (ent_destroy e)"
    using assms(1) by simp_all
  let ?inits = "log @ map (\<lambda>e. InitializeCalled (ent_name e)) ents"
  let ?w1 = "foldl (\<lambda>v e. snd (ent_initialize e v)) w ents"
  have ctor: "fst (scoped_initializer_ctor ents (log, w)) = Returned"
      "fst (snd (scoped_initializer_ctor ents (log, w))) = ?inits"
      "snd (snd (scoped_initializer_ctor ents (log, w))) = ?w1"
    using initialize_fold_returns [OF i, of log w] initialize_fold_state [OF i, of log w]
    by (simp_all add: scoped_initializer_ctor_def)
  have dtor: "scoped_initializer_dtor ents (l, v)
      = (Returned, (l @ map (\<lambda>e. DestroyCalled (ent_name e)) (rev ents),
                    foldl (\<lambda>v e. snd (ent_destroy e v)) v (rev ents)))" for l v
  proof -
    have "foldr (\<lambda>e v. snd (ent_destroy e v)) ents v
        = foldl (\<lambda>v e. snd (ent_destroy e v)) v (rev ents)"
      by (simp add: foldr_conv_foldl)
    with destroy_fold_returns [OF d, of l v] destroy_fold_state [OF d, of l v]
    have "destroy_fold ents (l, v)
         = (Returned, (l @ map (\<lambda>e. DestroyCalled (ent_name e)) (rev ents),
                       foldl (\<lambda>v e. snd (ent_destroy e v)) v (rev ents)))"
      by (cases "destroy_fold ents (l, v)") auto
    then show ?thesis by (simp add: scoped_initializer_dtor_def)
  qed
  have c: "scoped_initializer_ctor ents (log, w) = (Returned, (?inits, ?w1))"
    using ctor by (cases "scoped_initializer_ctor ents (log, w)") auto
  obtain r w2 where b: "body ?w1 = (r, w2)" by (cases "body ?w1")
  have r: "r \<noteq> Terminated" using assms(2) b by (metis fst_conv)
  have s: "scope ents body (log, w)
      = (r, (?inits @ map (\<lambda>e. DestroyCalled (ent_name e)) (rev ents),
             foldl (\<lambda>v e. snd (ent_destroy e v)) w2 (rev ents)))"
    using r by (cases r) (simp_all add: scope_def c b dtor)
  have block: "fst (snd (scope ents body (log, w)))
           = log @ map (\<lambda>e. InitializeCalled (ent_name e)) ents
                 @ map (\<lambda>e. DestroyCalled (ent_name e)) (rev ents)"
      "snd (snd (scope ents body (log, w)))
           = foldl (\<lambda>v e. snd (ent_destroy e v)) (snd (body ?w1)) (rev ents)"
      "fst (scope ents body (log, w)) = fst (body ?w1)"
      "fst (scope ents body (log, w))
           = fst (body (snd (snd (scoped_initializer_ctor ents (log, w)))))"
    by (simp_all add: s c b)
  have dt: "fst (scoped_initializer_dtor ents (log, w)) = Returned"
      "fst (snd (scoped_initializer_dtor ents (log, w)))
           = log @ map (\<lambda>e. DestroyCalled (ent_name e)) (rev ents)"
      "snd (snd (scoped_initializer_dtor ents (log, w)))
           = foldl (\<lambda>v e. snd (ent_destroy e v)) w (rev ents)"
    by (simp_all add: dtor)
  from ctor dt block show ?thesis by blast
qed

text \<open>
  A group over the recording entities 0, 1, 2 around a body that raises. The entities
  themselves have written into the program state, in this order: \<^verbatim>\<open>initialize()\<close> of
  0, 1, 2, then \<^verbatim>\<open>destroy()\<close> of 2, 1, 0. The log of the calls made says the same, and
  the exception goes on.
\<close>

theorem scoped_initializer_order_witness:
  "snd (snd (scope [recording_entity 0, recording_entity 1, recording_entity 2]
               (\<lambda>v. (Raised, v)) ([], [])))
     = [InitializeCalled 0, InitializeCalled 1, InitializeCalled 2,
        DestroyCalled 2, DestroyCalled 1, DestroyCalled 0]
   \<and> fst (snd (scope [recording_entity 0, recording_entity 1, recording_entity 2]
               (\<lambda>v. (Raised, v)) ([], [])))
     = [InitializeCalled 0, InitializeCalled 1, InitializeCalled 2,
        DestroyCalled 2, DestroyCalled 1, DestroyCalled 0]
   \<and> fst (scope [recording_entity 0, recording_entity 1, recording_entity 2]
               (\<lambda>v. (Raised, v)) ([], []))
     = Raised"
proof -
  let ?ents = "[recording_entity 0, recording_entity 1, recording_entity 2]"
  let ?body = "\<lambda>v::event list. (Raised, v)"
  have e: "\<forall>e \<in> set ?ents. returns (ent_initialize e) \<and> returns (ent_destroy e)"
    by (simp add: recording_entity_returns)
  have b: "\<forall>v. fst (?body v) \<noteq> Terminated" by simp
  note r = scoped_initializer_order [OF e b, of "[]" "[]"]
  from r have "snd (snd (scope ?ents ?body ([], [])))
           = foldl (\<lambda>v e. snd (ent_destroy e v))
               (snd (?body (foldl (\<lambda>v e. snd (ent_initialize e v)) [] ?ents))) (rev ?ents)"
    by (elim conjE)
  then have state: "snd (snd (scope ?ents ?body ([], [])))
     = [InitializeCalled 0, InitializeCalled 1, InitializeCalled 2,
        DestroyCalled 2, DestroyCalled 1, DestroyCalled 0]"
    by (simp add: recording_entity_def)
  from r have "fst (snd (scope ?ents ?body ([], [])))
           = [] @ map (\<lambda>e. InitializeCalled (ent_name e)) ?ents
                 @ map (\<lambda>e. DestroyCalled (ent_name e)) (rev ?ents)"
    by (elim conjE)
  then have calls: "fst (snd (scope ?ents ?body ([], [])))
     = [InitializeCalled 0, InitializeCalled 1, InitializeCalled 2,
        DestroyCalled 2, DestroyCalled 1, DestroyCalled 0]"
    by (simp add: recording_entity_def)
  from r have "fst (scope ?ents ?body ([], []))
           = fst (?body (foldl (\<lambda>v e. snd (ent_initialize e v)) [] ?ents))"
    by (elim conjE)
  then have out: "fst (scope ?ents ?body ([], [])) = Raised" by simp
  from state calls out show ?thesis by blast
qed




end
